theory Spec2Isabelle
  imports Complex_Main
begin

section \<open>Strings as Python uses them\<close>

text \<open>
  A Python \<open>str\<close> is modelled as a \<open>string\<close> holding the text's bytes. The functions below
  follow \<open>str.lower\<close>, \<open>str.split\<close> (no argument) and the \<open>in\<close> operator on ASCII text:
  \<open>lower\<close> maps \<open>A\<close>..\<open>Z\<close> to \<open>a\<close>..\<open>z\<close> and leaves every other byte alone, and the
  whitespace of \<open>split\<close> is the ASCII whitespace of \<open>str.isspace\<close>.
\<close>

definition lower_char :: "char \<Rightarrow> char" where
  "lower_char c =
     (let n = (of_char c :: nat) in if 65 \<le> n \<and> n \<le> 90 then char_of (n + 32) else c)"

definition lower :: "string \<Rightarrow> string" where
  "lower s = map lower_char s"

definition isspace :: "char \<Rightarrow> bool" where
  "isspace c =
     (let n = (of_char c :: nat) in (9 \<le> n \<and> n \<le> 13) \<or> (28 \<le> n \<and> n \<le> 32))"

fun split_acc :: "string \<Rightarrow> string \<Rightarrow> string list" where
  "split_acc [] cur = (if cur = [] then [] else [cur])"
| "split_acc (c # cs) cur =
     (if isspace c then (if cur = [] then split_acc cs [] else cur # split_acc cs [])
      else split_acc cs (cur @ [c]))"

definition split :: "string \<Rightarrow> string list" where
  "split s = split_acc s []"

fun startswith :: "string \<Rightarrow> string \<Rightarrow> bool" where
  "startswith s [] = True"
| "startswith [] (k # ks) = False"
| "startswith (c # cs) (k # ks) = (c = k \<and> startswith cs ks)"

text \<open>\<open>str_in kw s\<close> is Python's \<open>kw in s\<close>: \<open>kw\<close> occurs in \<open>s\<close> as a contiguous run.\<close>

fun str_in :: "string \<Rightarrow> string \<Rightarrow> bool" where
  "str_in kw [] = (kw = [])"
| "str_in kw (c # cs) = (startswith (c # cs) kw \<or> str_in kw cs)"

fun join :: "string \<Rightarrow> string list \<Rightarrow> string" where
  "join sep [] = []"
| "join sep [x] = x"
| "join sep (x # y # ys) = x @ sep @ join sep (y # ys)"

section \<open>Genesis: provenance records and the ledger (genesis.py)\<close>

datatype ResponsibilityTier = SYSTEM | DEVELOPER | USER | AI

fun tier_value :: "ResponsibilityTier \<Rightarrow> nat" where
  "tier_value SYSTEM = 0"
| "tier_value DEVELOPER = 1"
| "tier_value USER = 2"
| "tier_value AI = 3"

text \<open>The field \<open>id\<close> of the dataclass is \<open>genesis_id\<close> here (\<open>id\<close> is HOL's identity).\<close>

record Genesis =
  genesis_id :: string
  timestamp :: string
  initiator :: string
  tier :: ResponsibilityTier
  original_request :: string
  parent_id :: "string option"
  children_ids :: "string list"
  is_mine :: bool
  confirmed :: bool
  confirmation_reason :: "string option"

text \<open>
  The ledger: its path, the dictionary \<open>records\<close>, and the lines appended so far to the
  file at \<open>ledger_path\<close>, one snapshot of a record per line (\<open>_append_to_ledger\<close> writes
  \<open>to_dict\<close> of the record, which holds every field). The append itself is taken to succeed.
\<close>

record GenesisLedger =
  ledger_path :: string
  records :: "string \<rightharpoonup> Genesis"
  ledger_file :: "Genesis list"

definition init_ledger :: "string \<Rightarrow> GenesisLedger" where
  "init_ledger path = \<lparr>ledger_path = path, records = Map.empty, ledger_file = []\<rparr>"

definition append_to_ledger :: "GenesisLedger \<Rightarrow> Genesis \<Rightarrow> GenesisLedger" where
  "append_to_ledger s g = s\<lparr>ledger_file := ledger_file s @ [g]\<rparr>"

text \<open>
  \<open>create\<close>. The two defaults of the dataclass that come from the environment are
  parameters: \<open>new_id\<close> is the value of \<open>str(uuid.uuid4())[:8]\<close> and \<open>now\<close> that of
  \<open>datetime.utcnow().isoformat()\<close>. The guard \<open>parent_id and parent_id in self.records\<close>
  is false for \<open>None\<close>, for the empty string and for an id that is not a key.
\<close>

definition create ::
  "GenesisLedger \<Rightarrow> string \<Rightarrow> string \<Rightarrow> string \<Rightarrow> string \<Rightarrow> ResponsibilityTier \<Rightarrow>
   string option \<Rightarrow> bool \<Rightarrow> Genesis \<times> GenesisLedger" where
  "create s new_id now initiator_arg request tier_arg parent is_mine_arg =
     (let genesis = \<lparr>genesis_id = new_id, timestamp = now, initiator = initiator_arg,
                      tier = tier_arg, original_request = request, parent_id = parent,
                      children_ids = [], is_mine = is_mine_arg, confirmed = False,
                      confirmation_reason = None\<rparr>;
          recs1 = (case parent of
                     None \<Rightarrow> records s
                   | Some p \<Rightarrow>
                       if p \<noteq> [] then
                         (case records s p of
                            None \<Rightarrow> records s
                          | Some pr \<Rightarrow>
                              (records s)(p \<mapsto> pr\<lparr>children_ids := children_ids pr @ [new_id]\<rparr>))
                       else records s);
          recs2 = recs1(new_id \<mapsto> genesis)
      in (genesis, append_to_ledger (s\<lparr>records := recs2\<rparr>) genesis))"

definition confirm :: "GenesisLedger \<Rightarrow> string \<Rightarrow> string \<Rightarrow> bool \<times> GenesisLedger" where
  "confirm s gid reason =
     (case records s gid of
        None \<Rightarrow> (False, s)
      | Some r \<Rightarrow>
          (let r' = r\<lparr>confirmed := True, confirmation_reason := Some reason\<rparr>
           in (True, append_to_ledger (s\<lparr>records := (records s)(gid \<mapsto> r')\<rparr>) r')))"

text \<open>
  \<open>get_chain\<close>: the loop \<open>while current_id and current_id in self.records\<close>. It has no
  bound, so it is a partial function: \<open>None\<close> is the walk that never returns.
\<close>

partial_function (option) get_chain_loop ::
  "(string \<rightharpoonup> Genesis) \<Rightarrow> string option \<Rightarrow> Genesis list \<Rightarrow> Genesis list option" where
  "get_chain_loop recs current_id chain =
     (case current_id of
        None \<Rightarrow> Some chain
      | Some c \<Rightarrow>
          if c = [] then Some chain
          else (case recs c of
                  None \<Rightarrow> Some chain
                | Some r \<Rightarrow> get_chain_loop recs (parent_id r) (chain @ [r])))"

definition get_chain :: "GenesisLedger \<Rightarrow> string \<Rightarrow> Genesis list option" where
  "get_chain s gid = map_option rev (get_chain_loop (records s) (Some gid) [])"

text \<open>
  A sequence of \<open>create\<close> calls on a ledger, each call with the values the environment
  gave it. \<open>call_ok\<close> says of one call what the data model asks of it: the id is new to the
  store, and a parent id, when one is given, is the non-empty id of a stored record.
\<close>

datatype create_call =
  CreateCall string string string string ResponsibilityTier "string option" bool

fun do_create :: "GenesisLedger \<Rightarrow> create_call \<Rightarrow> GenesisLedger" where
  "do_create s (CreateCall new_id now ini req t parent mine) =
     snd (create s new_id now ini req t parent mine)"

fun run_creates :: "GenesisLedger \<Rightarrow> create_call list \<Rightarrow> GenesisLedger" where
  "run_creates s [] = s"
| "run_creates s (c # cs) = run_creates (do_create s c) cs"

fun call_ok :: "GenesisLedger \<Rightarrow> create_call \<Rightarrow> bool" where
  "call_ok s (CreateCall new_id now ini req t parent mine) =
     (records s new_id = None \<and>
      (case parent of None \<Rightarrow> True | Some p \<Rightarrow> p \<noteq> [] \<and> records s p \<noteq> None))"

fun calls_ok :: "GenesisLedger \<Rightarrow> create_call list \<Rightarrow> bool" where
  "calls_ok s [] = True"
| "calls_ok s (c # cs) = (call_ok s c \<and> calls_ok (do_create s c) cs)"

text \<open>Bidirectional linkage of one record, and of every record of the store.\<close>

definition linked :: "(string \<rightharpoonup> Genesis) \<Rightarrow> Genesis \<Rightarrow> bool" where
  "linked recs r =
     (case parent_id r of
        None \<Rightarrow> True
      | Some p \<Rightarrow>
          (case recs p of None \<Rightarrow> False | Some pr \<Rightarrow> genesis_id r \<in> set (children_ids pr)))"

definition all_linked :: "GenesisLedger \<Rightarrow> bool" where
  "all_linked s = (\<forall>k r. records s k = Some r \<longrightarrow> linked (records s) r)"

text \<open>
  What a chain looks like. \<open>walk_stops\<close>: the walk ends after this record (no parent, an
  empty parent id, or a parent id that is not a key). \<open>leaf_first\<close>: the records in the
  order the loop appends them, each the stored parent of the one before.
  \<open>root_first\<close>: in the returned order, every record is the parent of the next.
\<close>

definition walk_stops :: "(string \<rightharpoonup> Genesis) \<Rightarrow> Genesis \<Rightarrow> bool" where
  "walk_stops recs r =
     (case parent_id r of None \<Rightarrow> True | Some p \<Rightarrow> p = [] \<or> recs p = None)"

fun leaf_first :: "(string \<rightharpoonup> Genesis) \<Rightarrow> Genesis list \<Rightarrow> bool" where
  "leaf_first recs [] = True"
| "leaf_first recs [x] = walk_stops recs x"
| "leaf_first recs (c # p # rest) =
     (case parent_id c of
        None \<Rightarrow> False
      | Some q \<Rightarrow> q \<noteq> [] \<and> recs q = Some p \<and> leaf_first recs (p # rest))"

fun root_first :: "Genesis list \<Rightarrow> bool" where
  "root_first [] = True"
| "root_first [x] = True"
| "root_first (p # c # rest) = (parent_id c = Some (genesis_id p) \<and> root_first (c # rest))"

fun call_id :: "create_call \<Rightarrow> string" where
  "call_id (CreateCall new_id now ini req t parent mine) = new_id"

text \<open>
  A store with a ranking: every record is under its own id, the ranks are below a bound,
  and the parent of a record is stored and ranks below it.
\<close>

definition store_ok :: "(string \<rightharpoonup> Genesis) \<Rightarrow> (string \<Rightarrow> nat) \<Rightarrow> nat \<Rightarrow> bool" where
  "store_ok recs rank n =
     (\<forall>k g. recs k = Some g \<longrightarrow>
        genesis_id g = k \<and> rank k < n \<and>
        (\<forall>p. parent_id g = Some p \<longrightarrow> recs p \<noteq> None \<and> rank p < rank k))"

subsection \<open>The confirmation gate\<close>



section \<open>The council (council.py)\<close>

text \<open>
  Python's floats are taken as real numbers: the sums and quotients below are the source's
  expressions, without the rounding of IEEE arithmetic.
\<close>

datatype Persona = PHILOSOPHER | ENGINEER | GUARDIAN

fun persona_value :: "Persona \<Rightarrow> string" where
  "persona_value PHILOSOPHER = ''philosopher''"
| "persona_value ENGINEER = ''engineer''"
| "persona_value GUARDIAN = ''guardian''"

text \<open>\<open>for persona in Persona\<close> runs over the members in the order of their definition.\<close>

definition all_personas :: "Persona list" where
  "all_personas = [PHILOSOPHER, ENGINEER, GUARDIAN]"

record CouncilVote =
  persona :: Persona
  stance :: string
  concerns :: "string list"
  approval :: bool
  confidence :: real

text \<open>The field \<open>requires_confirmation\<close> of the verdict is \<open>requires_confirmation_flag\<close>.\<close>

record CouncilVerdict =
  approved :: bool
  consensus_level :: real
  votes :: "CouncilVote list"
  final_decision :: string
  uncertainty_level :: real
  requires_confirmation_flag :: bool

datatype error = AdvisorError | StopIteration | ZeroDivisionError

text \<open>
  The language model is outside the program. An advisor is a function from the persona, the
  action and the context to the parsed JSON object of the reply, or to \<open>AdvisorError\<close> when
  the call, \<open>json.loads\<close> or the lookup of one of the four keys raises.
\<close>

record advisor_reply =
  reply_stance :: string
  reply_concerns :: "string list"
  reply_approval :: bool
  reply_confidence :: real

definition get_persona_vote ::
  "(Persona \<Rightarrow> string \<Rightarrow> 'c \<Rightarrow> error + advisor_reply) \<Rightarrow> Persona \<Rightarrow> string \<Rightarrow> 'c \<Rightarrow>
   error + CouncilVote" where
  "get_persona_vote claude p action context =
     (case claude p action context of
        Inl e \<Rightarrow> Inl e
      | Inr result \<Rightarrow>
          Inr \<lparr>persona = p, stance = reply_stance result, concerns = reply_concerns result,
               approval = reply_approval result, confidence = reply_confidence result\<rparr>)"

text \<open>The vote that \<open>_get_persona_vote\<close> builds from a reply.\<close>

definition vote_of :: "Persona \<Rightarrow> advisor_reply \<Rightarrow> CouncilVote" where
  "vote_of p a =
     \<lparr>persona = p, stance = reply_stance a, concerns = reply_concerns a,
      approval = reply_approval a, confidence = reply_confidence a\<rparr>"

definition high_risk_keywords :: "string list" where
  "high_risk_keywords =
     [''delete'', ''remove'', ''destroy'', ''override'', ''betray'', ''break'', ''abandon'',
      ''ignore'']"

text \<open>\<open>next(v for v in votes if ...)\<close> raises \<open>StopIteration\<close> when no vote is the guardian's.\<close>

definition check_confirmation_required :: "string \<Rightarrow> CouncilVote list \<Rightarrow> error + bool" where
  "check_confirmation_required action vs =
     (if list_ex (\<lambda>kw. str_in kw (lower action)) high_risk_keywords then Inr True
      else (case find (\<lambda>v. persona v = GUARDIAN) vs of
              None \<Rightarrow> Inl StopIteration
            | Some guardian_vote \<Rightarrow>
                if \<not> approval guardian_vote \<or> concerns guardian_vote \<noteq> [] then Inr True
                else Inr False))"

definition synthesize_decision :: "CouncilVote list \<Rightarrow> string" where
  "synthesize_decision vs =
     join '' | '' (map (\<lambda>v. persona_value (persona v) @ '': '' @ stance v) vs)"

definition calculate_uncertainty :: "CouncilVote list \<Rightarrow> error + real" where
  "calculate_uncertainty vs =
     (let confidences = map confidence vs in
      if confidences = [] then Inl ZeroDivisionError
      else (let avg_confidence = foldl (+) 0 confidences / real (length confidences)
            in Inr (1 - avg_confidence)))"

fun collect_votes ::
  "(Persona \<Rightarrow> string \<Rightarrow> 'c \<Rightarrow> error + advisor_reply) \<Rightarrow> string \<Rightarrow> 'c \<Rightarrow> Persona list \<Rightarrow>
   error + CouncilVote list" where
  "collect_votes claude action context [] = Inr []"
| "collect_votes claude action context (p # ps) =
     (case get_persona_vote claude p action context of
        Inl e \<Rightarrow> Inl e
      | Inr vote \<Rightarrow>
          (case collect_votes claude action context ps of
             Inl e \<Rightarrow> Inl e
           | Inr vs \<Rightarrow> Inr (vote # vs)))"

text \<open>\<open>deliberate\<close> returns the verdict and the history with the verdict appended.\<close>

definition deliberate ::
  "(Persona \<Rightarrow> string \<Rightarrow> 'c \<Rightarrow> error + advisor_reply) \<Rightarrow> CouncilVerdict list \<Rightarrow> string \<Rightarrow> 'c \<Rightarrow>
   error + (CouncilVerdict \<times> CouncilVerdict list)" where
  "deliberate claude history action context =
     (case collect_votes claude action context all_personas of
        Inl e \<Rightarrow> Inl e
      | Inr vs \<Rightarrow>
          (let approvals = length (filter approval vs) in
           if length vs = 0 then Inl ZeroDivisionError
           else (let consensus = real approvals / real (length vs) in
                 case check_confirmation_required action vs of
                   Inl e \<Rightarrow> Inl e
                 | Inr confirmation \<Rightarrow>
                     (case calculate_uncertainty vs of
                        Inl e \<Rightarrow> Inl e
                      | Inr uncertainty \<Rightarrow>
                          (let verdict =
                                 \<lparr>approved = (approvals = length vs),
                                  consensus_level = consensus,
                                  votes = vs,
                                  final_decision = synthesize_decision vs,
                                  uncertainty_level = uncertainty,
                                  requires_confirmation_flag = confirmation\<rparr>
                           in Inr (verdict, history @ [verdict]))))))"

section \<open>The benevolence filter (benevolence.py)\<close>

datatype AuditLayer = L1 | L2 | L3

datatype AuditResult = PASS | FLAG | REJECT | INTERCEPT

record BenevolenceAudit =
  attribute_check :: AuditResult
  shadow_check :: AuditResult
  benevolence_check :: AuditResult
  final_result :: AuditResult
  error_log :: "string option"
  context_score :: real
  phrase_score :: real
  tension_score :: real

definition new_audit :: BenevolenceAudit where
  "new_audit =
     \<lparr>attribute_check = PASS, shadow_check = PASS, benevolence_check = PASS,
      final_result = PASS, error_log = None, context_score = 0, phrase_score = 0,
      tension_score = 0\<rparr>"

definition PLEASING_PATTERNS :: "string list" where
  "PLEASING_PATTERNS =
     [''absolutely'', ''definitely'', ''of course'', ''certainly'', ''no problem'',
      ''sure thing'', ''I'' @ [CHR 0x27] @ ''d be happy to'', ''Great question'']"

definition HONEST_PATTERNS :: "string list" where
  "HONEST_PATTERNS =
     [''I'' @ [CHR 0x27] @ ''m not sure'', ''I don'' @ [CHR 0x27] @ ''t know'', ''might be'',
      ''could be'', ''uncertain'', ''approximately'', ''based on limited'']"

text \<open>
  None of the patterns holds a character that is special in a regular expression, so
  \<open>re.search(p, text)\<close> finds a match exactly when \<open>p\<close> occurs in \<open>text\<close>.
\<close>

definition re_search :: "string \<Rightarrow> string \<Rightarrow> bool" where
  "re_search p text = str_in p text"

definition check_attribute :: "string \<Rightarrow> AuditLayer \<Rightarrow> AuditResult" where
  "check_attribute action_basis current_layer =
     (if action_basis = ''Inference'' \<and> current_layer \<noteq> L2 then FLAG else PASS)"

definition check_shadow :: "string \<Rightarrow> string list \<Rightarrow> AuditResult \<times> real" where
  "check_shadow proposed_action context_fragments =
     (if context_fragments = [] then (PASS, 0.5)
      else (let action_words = set (split (lower proposed_action));
                context_words =
                  foldl (\<lambda>acc fragment. acc \<union> set (split (lower fragment))) {}
                    context_fragments
            in if action_words = {} then (PASS, 0)
               else (let overlap =
                           real (card (action_words \<inter> context_words)) /
                           real (card action_words)
                     in if overlap < 0.3 then (REJECT, overlap) else (PASS, overlap))))"

definition check_benevolence :: "string \<Rightarrow> AuditResult \<times> real" where
  "check_benevolence proposed_action =
     (let text = lower proposed_action;
          pleasing_count = length (filter (\<lambda>p. re_search (lower p) text) PLEASING_PATTERNS);
          honest_count = length (filter (\<lambda>p. re_search (lower p) text) HONEST_PATTERNS);
          total_markers = pleasing_count + honest_count;
          phrase = (if total_markers = 0 then 0.5
                    else real honest_count / real total_markers)
      in if pleasing_count \<ge> 2 \<and> honest_count = 0 then (INTERCEPT, phrase)
         else (PASS, phrase))"

text \<open>\<open>combined ** 0.5\<close> is the square root (the scores are never negative).\<close>

definition calculate_tension :: "real \<Rightarrow> real \<Rightarrow> real" where
  "calculate_tension c p = (let combined = c * p in 1 - sqrt combined)"

text \<open>The three reason strings of \<open>_finalize\<close>, as the bytes of their UTF-8 encoding.\<close>

definition msg_shadow :: string where
  "msg_shadow = [CHR 0xE7, CHR 0x84, CHR 0xA1, CHR 0xE5, CHR 0xBD, CHR 0xB1, CHR 0xE5, CHR 0xAD, CHR 0x90, CHR 0xE7, CHR 0x9A, CHR 0x84, CHR 0xE8, CHR 0xBC, CHR 0xB8, CHR 0xE5, CHR 0x87, CHR 0xBA]"

definition msg_benevolence :: string where
  "msg_benevolence = [CHR 0xE6, CHR 0x94, CHR 0x94, CHR 0xE6, CHR 0x88, CHR 0xAA, CHR 0xE7, CHR 0x84, CHR 0xA1, CHR 0xE6, CHR 0x95, CHR 0x88, CHR 0xE6, CHR 0x95, CHR 0x98, CHR 0xE4, CHR 0xBA, CHR 0x8B]"

definition msg_attribute :: string where
  "msg_attribute = [CHR 0xE8, CHR 0xB7, CHR 0xA8, CHR 0xE5, CHR 0xB1, CHR 0xA4, CHR 0xE6, CHR 0xB7, CHR 0xB7, CHR 0xE7, CHR 0x94, CHR 0xA8]"

fun finalize_loop :: "(AuditResult \<times> string) list \<Rightarrow> AuditResult \<times> string option" where
  "finalize_loop [] = (PASS, None)"
| "finalize_loop ((result, error_msg) # rest) =
     (if result = REJECT then (REJECT, Some error_msg)
      else if result = INTERCEPT then (INTERCEPT, Some error_msg)
      else if result = FLAG then (FLAG, Some error_msg)
      else finalize_loop rest)"

definition finalize :: "BenevolenceAudit \<Rightarrow> AuditResult \<times> string option" where
  "finalize a =
     (let priority = [(shadow_check a, msg_shadow), (benevolence_check a, msg_benevolence),
                      (attribute_check a, msg_attribute)]
      in finalize_loop priority)"

definition audit :: "string \<Rightarrow> string list \<Rightarrow> string \<Rightarrow> AuditLayer \<Rightarrow> BenevolenceAudit" where
  "audit proposed_action context_fragments action_basis current_layer =
     (let a0 = new_audit;
          a1 = a0\<lparr>attribute_check := check_attribute action_basis current_layer\<rparr>;
          a2 = a1\<lparr>shadow_check := fst (check_shadow proposed_action context_fragments),
                  context_score := snd (check_shadow proposed_action context_fragments)\<rparr>;
          a3 = a2\<lparr>benevolence_check := fst (check_benevolence proposed_action),
                  phrase_score := snd (check_benevolence proposed_action)\<rparr>;
          a4 = a3\<lparr>tension_score := calculate_tension (context_score a3) (phrase_score a3)\<rparr>
      in a4\<lparr>final_result := fst (finalize a4), error_log := snd (finalize a4)\<rparr>)"

text \<open>
  The order of the outcomes that the comment in \<open>_finalize\<close> gives,
  \<open>REJECT > INTERCEPT > FLAG > PASS\<close>, and the outcome of a list that is highest in it.
\<close>

fun priority_of :: "AuditResult \<Rightarrow> nat" where
  "priority_of PASS = 0"
| "priority_of FLAG = 1"
| "priority_of INTERCEPT = 2"
| "priority_of REJECT = 3"

fun highest_priority :: "AuditResult list \<Rightarrow> AuditResult" where
  "highest_priority [] = PASS"
| "highest_priority (x # xs) =
     (if priority_of (highest_priority xs) \<le> priority_of x then x else highest_priority xs)"

text \<open>
  The overlap of the shadow check in the words of the specification: the share of the
  action's words (lower-cased, split at whitespace) that occur among the words of the
  context fragments.
\<close>

definition action_words :: "string \<Rightarrow> string set" where
  "action_words a = set (split (lower a))"

definition context_words :: "string list \<Rightarrow> string set" where
  "context_words fragments = (\<Union>f \<in> set fragments. set (split (lower f)))"



section \<open>Examples\<close>

definition pleasing_action :: string where
  "pleasing_action = ''Absolutely! Great question! I'' @ [CHR 0x27] @ ''d be happy to help!''"

definition example_ledger :: GenesisLedger where
  "example_ledger =
     run_creates (init_ledger ''genesis_ledger.jsonl'')
       [CreateCall ''a1b2c3d4'' ''2024-01-01T00:00:00'' ''user'' ''draft a report'' USER None
          False,
        CreateCall ''e5f6a7b8'' ''2024-01-01T00:00:05'' ''assistant'' ''collect sources'' AI
          (Some ''a1b2c3d4'') True]"






definition philosopher_reply :: advisor_reply where
  "philosopher_reply =
     \<lparr>reply_stance = ''ethical'', reply_concerns = [], reply_approval = True,
      reply_confidence = 0.9\<rparr>"

definition engineer_reply :: "bool \<Rightarrow> advisor_reply" where
  "engineer_reply approves =
     \<lparr>reply_stance = ''feasible'', reply_concerns = [], reply_approval = approves,
      reply_confidence = 0.8\<rparr>"

definition guardian_reply :: "string list \<Rightarrow> advisor_reply" where
  "guardian_reply cs =
     \<lparr>reply_stance = ''safe'', reply_concerns = cs, reply_approval = True,
      reply_confidence = 0.95\<rparr>"

definition scripted_advisor ::
  "bool \<Rightarrow> string list \<Rightarrow> Persona \<Rightarrow> string \<Rightarrow> unit \<Rightarrow> error + advisor_reply" where
  "scripted_advisor engineer_approves guardian_concerns p action context =
     (case p of
        PHILOSOPHER \<Rightarrow> Inr philosopher_reply
      | ENGINEER \<Rightarrow> Inr (engineer_reply engineer_approves)
      | GUARDIAN \<Rightarrow> Inr (guardian_reply guardian_concerns))"

section \<open>The ledger: linkage of parents and children\<close>

lemma all_linked_init: "all_linked (init_ledger path)"
  by (simp add: all_linked_def init_ledger_def)

lemma records_create_no_parent:
  "records (snd (create s n now ini req t None mine)) =
     (records s)(n \<mapsto> fst (create s n now ini req t None mine))"
  by (simp add: create_def Let_def append_to_ledger_def)

lemma records_create_parent:
  assumes "records s p = Some pr" "p \<noteq> []"
  shows "records (snd (create s n now ini req t (Some p) mine)) =
     (records s)(p \<mapsto> pr\<lparr>children_ids := children_ids pr @ [n]\<rparr>,
                 n \<mapsto> fst (create s n now ini req t (Some p) mine))"
  using assms by (simp add: create_def Let_def append_to_ledger_def)

lemma fst_create:
  "fst (create s n now ini req t parent mine) =
     \<lparr>genesis_id = n, timestamp = now, initiator = ini, tier = t, original_request = req,
      parent_id = parent, children_ids = [], is_mine = mine, confirmed = False,
      confirmation_reason = None\<rparr>"
  by (simp add: create_def Let_def)

lemma linked_upd_parent:
  assumes "linked recs r" "recs p = Some pr"
  shows "linked (recs(p \<mapsto> pr\<lparr>children_ids := children_ids pr @ [n]\<rparr>)) r"
  using assms by (auto simp: linked_def split: option.splits)

lemma linked_upd_fresh:
  assumes "linked recs r" "recs n = None"
  shows "linked (recs(n \<mapsto> g)) r"
  using assms by (auto simp: linked_def split: option.splits)

lemma all_linked_step:
  assumes inv: "all_linked s" and ok: "call_ok s c"
  shows "all_linked (do_create s c)"
proof (cases c)
  case (CreateCall n now ini req t parent mine)
  from ok CreateCall have fresh: "records s n = None" by simp
  let ?g = "fst (create s n now ini req t parent mine)"
  show ?thesis
  proof (cases parent)
    case None
    have recs: "records (do_create s c) = (records s)(n \<mapsto> ?g)"
      using CreateCall None by (simp add: records_create_no_parent)
    have "linked ((records s)(n \<mapsto> ?g)) r" if "((records s)(n \<mapsto> ?g)) k = Some r" for k r
    proof (cases "k = n")
      case True
      with that have "r = ?g" by simp
      then show ?thesis using None by (simp add: linked_def fst_create)
    next
      case False
      with that have "records s k = Some r" by simp
      with inv have "linked (records s) r" by (auto simp: all_linked_def)
      then show ?thesis using fresh by (rule linked_upd_fresh)
    qed
    then show ?thesis unfolding all_linked_def recs by blast
  next
    case (Some p)
    with ok CreateCall obtain pr where p: "p \<noteq> []" "records s p = Some pr" by auto
    from p fresh have pn: "p \<noteq> n" by auto
    let ?pr' = "pr\<lparr>children_ids := children_ids pr @ [n]\<rparr>"
    let ?recs1 = "(records s)(p \<mapsto> ?pr')"
    have recs: "records (do_create s c) = ?recs1(n \<mapsto> ?g)"
      using CreateCall Some p by (simp add: records_create_parent)
    have fresh1: "?recs1 n = None" using fresh pn by simp
    have "linked (?recs1(n \<mapsto> ?g)) r" if "(?recs1(n \<mapsto> ?g)) k = Some r" for k r
    proof (cases "k = n")
      case True
      with that have "r = ?g" by simp
      then show ?thesis using Some pn by (simp add: linked_def fst_create)
    next
      case False
      with that have k: "?recs1 k = Some r" by simp
      have "linked (records s) r"
      proof (cases "k = p")
        case True
        with k have "r = ?pr'" by simp
        moreover from inv p have "linked (records s) pr" by (auto simp: all_linked_def)
        ultimately show ?thesis by (auto simp: linked_def split: option.splits)
      next
        case False
        with k have "records s k = Some r" by simp
        with inv show ?thesis by (auto simp: all_linked_def)
      qed
      then have "linked ?recs1 r" using p(2) by (rule linked_upd_parent)
      then show ?thesis using fresh1 by (rule linked_upd_fresh)
    qed
    then show ?thesis unfolding all_linked_def recs by blast
  qed
qed

lemma all_linked_run:
  "all_linked s \<Longrightarrow> calls_ok s cs \<Longrightarrow> all_linked (run_creates s cs)"
  by (induction cs arbitrary: s) (auto intro: all_linked_step)

text \<open>
  C1, as stated: after any sequence of \<open>create\<close> calls every stored record with a parent id
  has its parent in the store, listing it as a child. It fails for a call whose parent id is
  not the id of a stored record: the new record keeps the dangling parent id.
\<close>

theorem create_linkage_counterexample:
  "\<not> all_linked (run_creates (init_ledger ''genesis_ledger.jsonl'')
       [CreateCall ''a1b2c3d4'' ''2024-01-01T00:00:00'' ''user'' ''draft a report'' USER
          (Some ''deadbeef'') False])"
  by (simp add: all_linked_def linked_def create_def init_ledger_def append_to_ledger_def
      Let_def)

text \<open>
  C1, amended: when every call of the sequence gets an id new to the store and its parent id,
  if one is given, is the non-empty id of a record stored at that time, then in the resulting
  store every record with a parent id has that parent stored, with the record's id among the
  parent's children.
\<close>

theorem create_linkage:
  "calls_ok (init_ledger path) cs \<Longrightarrow> all_linked (run_creates (init_ledger path) cs)"
  by (rule all_linked_run [OF all_linked_init])


theorem create_linkage_witness:
  "calls_ok (init_ledger ''genesis_ledger.jsonl'')
     [CreateCall ''a1b2c3d4'' ''2024-01-01T00:00:00'' ''user'' ''draft a report'' USER None
        False,
      CreateCall ''e5f6a7b8'' ''2024-01-01T00:00:05'' ''assistant'' ''collect sources'' AI
        (Some ''a1b2c3d4'') True]
   \<and> all_linked example_ledger
   \<and> map_option parent_id (records example_ledger ''e5f6a7b8'') = Some (Some ''a1b2c3d4'')
   \<and> map_option children_ids (records example_ledger ''a1b2c3d4'') = Some [''e5f6a7b8'']"
proof -
  let ?cs = "[CreateCall ''a1b2c3d4'' ''2024-01-01T00:00:00'' ''user'' ''draft a report'' USER
        None False,
      CreateCall ''e5f6a7b8'' ''2024-01-01T00:00:05'' ''assistant'' ''collect sources'' AI
        (Some ''a1b2c3d4'') True]"
  have ok: "calls_ok (init_ledger ''genesis_ledger.jsonl'') ?cs"
    by (simp add: init_ledger_def create_def append_to_ledger_def Let_def)
  from create_linkage [OF ok] have "all_linked example_ledger"
    by (simp only: example_ledger_def)
  moreover have
    "map_option parent_id (records example_ledger ''e5f6a7b8'') = Some (Some ''a1b2c3d4'')"
    "map_option children_ids (records example_ledger ''a1b2c3d4'') = Some [''e5f6a7b8'']"
    by (simp_all add: example_ledger_def init_ledger_def create_def append_to_ledger_def
        Let_def)
  ultimately show ?thesis using ok by blast
qed

section \<open>Substrings\<close>





section \<open>The confirmation gate\<close>

lemma tier_at_least_USER: "tier_value USER \<le> tier_value t \<longleftrightarrow> t = USER \<or> t = AI"
  by (cases t) simp_all







section \<open>Confirming a record\<close>

lemma confirm_present:
  assumes "records s gid = Some r"
  shows "confirm s gid reason =
     (True, s\<lparr>records := (records s)(gid \<mapsto> r\<lparr>confirmed := True, confirmation_reason := Some reason\<rparr>),
              ledger_file := ledger_file s @ [r\<lparr>confirmed := True, confirmation_reason := Some reason\<rparr>]\<rparr>)"
  using assms by (simp add: confirm_def append_to_ledger_def Let_def)

lemma confirm_absent:
  assumes "records s gid = None"
  shows "confirm s gid reason = (False, s)"
  using assms by (simp add: confirm_def)

text \<open>
  C9: for an id in the store, \<open>confirm\<close> with reason \<open>r1\<close> and then with reason \<open>r2\<close>
  returns true both times and leaves the record confirmed with reason \<open>r2\<close>, its other
  fields and all other records as they were, and one snapshot per call in the log. For an
  id that is not in the store, \<open>confirm\<close> returns false and the ledger is unchanged.
\<close>

theorem confirm_last_write_wins:
  "(records s gid = Some r \<longrightarrow>
      fst (confirm s gid r1) \<and>
      fst (confirm (snd (confirm s gid r1)) gid r2) \<and>
      records (snd (confirm (snd (confirm s gid r1)) gid r2)) gid =
        Some (r\<lparr>confirmed := True, confirmation_reason := Some r2\<rparr>) \<and>
      (\<forall>k. k \<noteq> gid \<longrightarrow>
           records (snd (confirm (snd (confirm s gid r1)) gid r2)) k = records s k) \<and>
      ledger_file (snd (confirm (snd (confirm s gid r1)) gid r2)) =
        ledger_file s @ [r\<lparr>confirmed := True, confirmation_reason := Some r1\<rparr>,
                         r\<lparr>confirmed := True, confirmation_reason := Some r2\<rparr>])
   \<and> (records s gid = None \<longrightarrow> confirm s gid reason = (False, s))"
proof (intro conjI impI)
  assume r: "records s gid = Some r"
  let ?ra = "r\<lparr>confirmed := True, confirmation_reason := Some r1\<rparr>"
  let ?s1 = "s\<lparr>records := (records s)(gid \<mapsto> ?ra), ledger_file := ledger_file s @ [?ra]\<rparr>"
  have c1: "confirm s gid r1 = (True, ?s1)" using r by (rule confirm_present)
  have r1: "records ?s1 gid = Some ?ra" by simp
  have c2: "confirm ?s1 gid r2 =
     (True, ?s1\<lparr>records := (records ?s1)(gid \<mapsto> ?ra\<lparr>confirmed := True, confirmation_reason := Some r2\<rparr>),
                ledger_file := ledger_file ?s1 @ [?ra\<lparr>confirmed := True, confirmation_reason := Some r2\<rparr>]\<rparr>)"
    using r1 by (rule confirm_present)
  show "fst (confirm s gid r1)" by (simp add: c1)
  show "fst (confirm (snd (confirm s gid r1)) gid r2)" by (simp add: c1 c2)
  show "records (snd (confirm (snd (confirm s gid r1)) gid r2)) gid =
        Some (r\<lparr>confirmed := True, confirmation_reason := Some r2\<rparr>)"
    by (simp add: c1 c2)
  show "\<forall>k. k \<noteq> gid \<longrightarrow>
           records (snd (confirm (snd (confirm s gid r1)) gid r2)) k = records s k"
    by (simp add: c1 c2)
  show "ledger_file (snd (confirm (snd (confirm s gid r1)) gid r2)) =
        ledger_file s @ [r\<lparr>confirmed := True, confirmation_reason := Some r1\<rparr>,
                         r\<lparr>confirmed := True, confirmation_reason := Some r2\<rparr>]"
    by (simp add: c1 c2)
next
  assume "records s gid = None"
  then show "confirm s gid reason = (False, s)" by (rule confirm_absent)
qed

lemma example_ledger_root:
  "records example_ledger ''a1b2c3d4'' =
     Some \<lparr>genesis_id = ''a1b2c3d4'', timestamp = ''2024-01-01T00:00:00'', initiator = ''user'',
           tier = USER, original_request = ''draft a report'', parent_id = None,
           children_ids = [''e5f6a7b8''], is_mine = False, confirmed = False,
           confirmation_reason = None\<rparr>"
  by (simp add: example_ledger_def init_ledger_def create_def append_to_ledger_def Let_def)


lemma example_ledger_other:
  "k \<noteq> ''a1b2c3d4'' \<Longrightarrow> k \<noteq> ''e5f6a7b8'' \<Longrightarrow> records example_ledger k = None"
  by (simp add: example_ledger_def init_ledger_def create_def append_to_ledger_def Let_def)

theorem confirm_last_write_wins_witness:
  "records example_ledger ''a1b2c3d4'' \<noteq> None
   \<and> fst (confirm example_ledger ''a1b2c3d4'' ''approved by user'')
   \<and> fst (confirm (snd (confirm example_ledger ''a1b2c3d4'' ''approved by user''))
           ''a1b2c3d4'' ''approved again'')
   \<and> map_option (\<lambda>g. (confirmed g, confirmation_reason g))
        (records (snd (confirm (snd (confirm example_ledger ''a1b2c3d4'' ''approved by user''))
           ''a1b2c3d4'' ''approved again'')) ''a1b2c3d4'') = Some (True, Some ''approved again'')
   \<and> records example_ledger ''00000000'' = None
   \<and> confirm example_ledger ''00000000'' ''approved by user'' = (False, example_ledger)"
proof -
  note a = confirm_last_write_wins [of example_ledger "''a1b2c3d4''" _
      "''approved by user''" "''approved again''", THEN conjunct1, rule_format,
      OF example_ledger_root]
  have none: "records example_ledger ''00000000'' = None"
    by (rule example_ledger_other) simp_all
  note b = confirm_last_write_wins [of example_ledger "''00000000''" _ _ _
      "''approved by user''", THEN conjunct2, rule_format, OF none]
  show ?thesis using a b none by (simp add: example_ledger_root)
qed

section \<open>The responsibility chain\<close>

lemma get_chain_loop_Some:
  "get_chain_loop recs (Some c) chain =
     (if c = [] then Some chain
      else (case recs c of
              None \<Rightarrow> Some chain
            | Some r \<Rightarrow> get_chain_loop recs (parent_id r) (chain @ [r])))"
  by (subst get_chain_loop.simps) simp

lemma get_chain_loop_None: "get_chain_loop recs None chain = Some chain"
  by (subst get_chain_loop.simps) simp


text \<open>
  With a ranking of the ids in which every stored parent is below its child, the walk from
  a stored record returns: what it has collected, then the record, then its ancestors.
\<close>

lemma get_chain_loop_returns:
  fixes rank :: "string \<Rightarrow> nat"
  assumes acyc: "\<And>c r p. recs c = Some r \<Longrightarrow> parent_id r = Some p \<Longrightarrow> p \<noteq> [] \<Longrightarrow>
                   recs p \<noteq> None \<Longrightarrow> rank p < rank c"
  shows "recs c = Some r \<Longrightarrow> c \<noteq> [] \<Longrightarrow>
         \<exists>up. get_chain_loop recs (Some c) acc = Some (acc @ r # up) \<and> leaf_first recs (r # up)"
proof (induction "rank c" arbitrary: c r acc rule: less_induct)
  case less
  have unfold: "get_chain_loop recs (Some c) acc = get_chain_loop recs (parent_id r) (acc @ [r])"
    using less.prems by (simp add: get_chain_loop_Some)
  show ?case
  proof (cases "parent_id r")
    case None
    then have "get_chain_loop recs (Some c) acc = Some (acc @ r # [])"
      using unfold by (simp add: get_chain_loop_None)
    moreover have "leaf_first recs (r # [])" using None by (simp add: walk_stops_def)
    ultimately show ?thesis by blast
  next
    case (Some p)
    show ?thesis
    proof (cases "p = [] \<or> recs p = None")
      case True
      then have "get_chain_loop recs (Some p) (acc @ [r]) = Some (acc @ [r])"
        by (auto simp: get_chain_loop_Some)
      then have "get_chain_loop recs (Some c) acc = Some (acc @ r # [])"
        using unfold Some by simp
      moreover have "leaf_first recs (r # [])" using Some True by (auto simp: walk_stops_def)
      ultimately show ?thesis by blast
    next
      case False
      then obtain pr where p: "p \<noteq> []" "recs p = Some pr" by auto
      have "rank p < rank c" using acyc [OF less.prems(1) Some p(1)] p(2) by simp
      from less.hyps [OF this p(2) p(1), of "acc @ [r]"]
      obtain up where up: "get_chain_loop recs (Some p) (acc @ [r]) = Some ((acc @ [r]) @ pr # up)"
        "leaf_first recs (pr # up)" by blast
      have "get_chain_loop recs (Some c) acc = Some (acc @ r # (pr # up))"
        using unfold Some up(1) by simp
      moreover have "leaf_first recs (r # pr # up)" using Some p up(2) by simp
      ultimately show ?thesis by blast
    qed
  qed
qed

lemma root_first_nth:
  "root_first xs \<longleftrightarrow>
     (\<forall>i. Suc i < length xs \<longrightarrow> parent_id (xs ! Suc i) = Some (genesis_id (xs ! i)))"
proof (induction xs rule: root_first.induct)
  case (3 p c rest)
  show ?case
  proof
    assume a: "root_first (p # c # rest)"
    show "\<forall>i. Suc i < length (p # c # rest) \<longrightarrow>
            parent_id ((p # c # rest) ! Suc i) = Some (genesis_id ((p # c # rest) ! i))"
    proof (intro allI impI)
      fix i assume i: "Suc i < length (p # c # rest)"
      show "parent_id ((p # c # rest) ! Suc i) = Some (genesis_id ((p # c # rest) ! i))"
      proof (cases i)
        case 0
        then show ?thesis using a by simp
      next
        case (Suc j)
        then show ?thesis using a i "3.IH" by simp
      qed
    qed
  next
    assume a: "\<forall>i. Suc i < length (p # c # rest) \<longrightarrow>
            parent_id ((p # c # rest) ! Suc i) = Some (genesis_id ((p # c # rest) ! i))"
    have "parent_id c = Some (genesis_id p)" using a [rule_format, of 0] by simp
    moreover have "root_first (c # rest)"
      unfolding "3.IH"
    proof (intro allI impI)
      fix i assume "Suc i < length (c # rest)"
      then show "parent_id ((c # rest) ! Suc i) = Some (genesis_id ((c # rest) ! i))"
        using a [rule_format, of "Suc i"] by simp
    qed
    ultimately show "root_first (p # c # rest)" by simp
  qed
qed simp_all

lemma leaf_first_last: "leaf_first recs xs \<Longrightarrow> xs \<noteq> [] \<Longrightarrow> walk_stops recs (last xs)"
  by (induction recs xs rule: leaf_first.induct) (auto split: option.splits)

lemma leaf_first_stored:
  assumes keyed: "\<And>k r. recs k = Some r \<Longrightarrow> genesis_id r = k"
  shows "leaf_first recs (x # xs) \<Longrightarrow> recs (genesis_id x) = Some x \<Longrightarrow>
         \<forall>y \<in> set (x # xs). recs (genesis_id y) = Some y"
proof (induction xs arbitrary: x)
  case Nil
  then show ?case by simp
next
  case (Cons p rest)
  from Cons.prems(1) obtain q where q: "parent_id x = Some q" "recs q = Some p"
    "leaf_first recs (p # rest)" by (auto split: option.splits)
  from keyed [OF q(2)] q(2) have "recs (genesis_id p) = Some p" by simp
  from Cons.IH [OF q(3) this] Cons.prems(2) show ?case by simp
qed

lemma root_first_snoc:
  "root_first xs \<Longrightarrow> xs \<noteq> [] \<Longrightarrow> parent_id c = Some (genesis_id (last xs)) \<Longrightarrow>
   root_first (xs @ [c])"
  by (induction xs rule: root_first.induct) auto

lemma leaf_first_rev:
  assumes keyed: "\<And>k r. recs k = Some r \<Longrightarrow> genesis_id r = k"
  shows "leaf_first recs (x # xs) \<Longrightarrow> root_first (rev (x # xs))"
proof (induction xs arbitrary: x)
  case Nil
  then show ?case by simp
next
  case (Cons p rest)
  from Cons.prems obtain q where q: "parent_id x = Some q" "recs q = Some p"
    "leaf_first recs (p # rest)" by (auto split: option.splits)
  have rf: "root_first (rev (p # rest))" using Cons.IH [OF q(3)] .
  have "last (rev (p # rest)) = p" by simp
  moreover have "genesis_id p = q" using keyed [OF q(2)] .
  ultimately have "parent_id x = Some (genesis_id (last (rev (p # rest))))" using q(1) by simp
  from root_first_snoc [OF rf _ this] show ?case by simp
qed

text \<open>The chain of a stored record in a store with ranked parent links.\<close>

lemma get_chain_ranked:
  fixes rank :: "string \<Rightarrow> nat"
  assumes keyed: "\<And>k g. records s k = Some g \<Longrightarrow> genesis_id g = k"
    and acyc: "\<And>c g p. records s c = Some g \<Longrightarrow> parent_id g = Some p \<Longrightarrow> p \<noteq> [] \<Longrightarrow>
                 records s p \<noteq> None \<Longrightarrow> rank p < rank c"
    and stored: "records s gid = Some r"
    and nonempty: "gid \<noteq> []"
  shows "\<exists>chain. get_chain s gid = Some chain \<and> chain \<noteq> [] \<and> last chain = r
           \<and> root_first chain
           \<and> (\<forall>i. Suc i < length chain \<longrightarrow>
                    parent_id (chain ! Suc i) = Some (genesis_id (chain ! i)))
           \<and> walk_stops (records s) (hd chain)
           \<and> (\<forall>g \<in> set chain. records s (genesis_id g) = Some g)"
proof -
  have "\<exists>up. get_chain_loop (records s) (Some gid) [] = Some ([] @ r # up)
            \<and> leaf_first (records s) (r # up)"
    by (rule get_chain_loop_returns
        [where rank = rank and recs = "records s" and c = gid, OF _ stored nonempty]) (rule acyc)
  then obtain up where up: "get_chain_loop (records s) (Some gid) [] = Some (r # up)"
    "leaf_first (records s) (r # up)" by auto
  let ?chain = "rev (r # up)"
  have 1: "get_chain s gid = Some ?chain" using up(1) by (simp add: get_chain_def)
  have 2: "?chain \<noteq> []" by simp
  have 3: "last ?chain = r" by simp
  have 4: "root_first ?chain" using keyed up(2) by (rule leaf_first_rev)
  have 5: "\<forall>i. Suc i < length ?chain \<longrightarrow>
             parent_id (?chain ! Suc i) = Some (genesis_id (?chain ! i))"
    using 4 by (simp only: root_first_nth)
  have "walk_stops (records s) (last (r # up))" using up(2) by (rule leaf_first_last) simp
  then have 6: "walk_stops (records s) (hd ?chain)" by (simp only: hd_rev)
  have "records s (genesis_id r) = Some r" using keyed [OF stored] stored by simp
  with leaf_first_stored [OF keyed up(2)]
  have 7: "\<forall>g \<in> set ?chain. records s (genesis_id g) = Some g" by simp
  from 1 2 3 4 5 6 7 show ?thesis by blast
qed







text \<open>
  Stores built by \<open>create\<close> calls that get new ids and stored parents are of that kind:
  every record is under its own id, and the order of creation ranks every parent below its
  children.
\<close>

lemma store_ok_init: "store_ok (records (init_ledger path)) rank 0"
  by (simp add: store_ok_def init_ledger_def)

lemma store_ok_step:
  assumes inv: "store_ok (records s) rank n" and ok: "call_ok s c"
  shows "store_ok (records (do_create s c)) (rank(call_id c := n)) (Suc n)"
proof (cases c)
  case (CreateCall new now ini req t parent mine)
  from ok CreateCall have fresh: "records s new = None" by simp
  let ?g = "fst (create s new now ini req t parent mine)"
  let ?rank = "rank(new := n)"
  have cid: "call_id c = new" using CreateCall by simp
  have old: "genesis_id g = k \<and> ?rank k < Suc n \<and>
      (\<forall>p. parent_id g = Some p \<longrightarrow> records s p \<noteq> None \<and> p \<noteq> new \<and> ?rank p < ?rank k)"
    if "records s k = Some g" for k g
  proof -
    from that fresh have kn: "k \<noteq> new" by auto
    from inv that have g: "genesis_id g = k" "rank k < n"
      "\<forall>p. parent_id g = Some p \<longrightarrow> records s p \<noteq> None \<and> rank p < rank k"
      unfolding store_ok_def by blast+
    have "p \<noteq> new" if "records s p \<noteq> None" for p using that fresh by auto
    with g kn show ?thesis by auto
  qed
  show ?thesis
  proof (cases parent)
    case None
    have recs: "records (do_create s c) = (records s)(new \<mapsto> ?g)"
      using CreateCall None by (simp add: records_create_no_parent)
    show ?thesis
      unfolding store_ok_def recs cid
    proof (intro allI impI)
      fix k g assume kg: "((records s)(new \<mapsto> ?g)) k = Some g"
      show "genesis_id g = k \<and> ?rank k < Suc n \<and>
        (\<forall>p. parent_id g = Some p \<longrightarrow> ((records s)(new \<mapsto> ?g)) p \<noteq> None \<and> ?rank p < ?rank k)"
      proof (cases "k = new")
        case True
        with kg have "g = ?g" by simp
        then show ?thesis using True None by (simp add: fst_create)
      next
        case False
        with kg have "records s k = Some g" by simp
        from old [OF this] show ?thesis by auto
      qed
    qed
  next
    case (Some p)
    with ok CreateCall obtain pr where p: "p \<noteq> []" "records s p = Some pr" by auto
    from p fresh have pn: "p \<noteq> new" by auto
    let ?pr' = "pr\<lparr>children_ids := children_ids pr @ [new]\<rparr>"
    let ?recs = "(records s)(p \<mapsto> ?pr', new \<mapsto> ?g)"
    have recs: "records (do_create s c) = ?recs"
      using CreateCall Some p by (simp add: records_create_parent)
    have rp: "rank p < n" using inv p(2) unfolding store_ok_def by blast
    show ?thesis
      unfolding store_ok_def recs cid
    proof (intro allI impI)
      fix k g assume kg: "?recs k = Some g"
      show "genesis_id g = k \<and> ?rank k < Suc n \<and>
        (\<forall>q. parent_id g = Some q \<longrightarrow> ?recs q \<noteq> None \<and> ?rank q < ?rank k)"
      proof (cases "k = new")
        case True
        with kg have "g = ?g" by simp
        then show ?thesis using True Some pn rp by (simp add: fst_create)
      next
        case False
        show ?thesis
        proof (cases "k = p")
          case True
          with kg False have g: "g = ?pr'" by simp
          from old [OF p(2)] show ?thesis unfolding g True by auto
        next
          case kp: False
          with kg False have "records s k = Some g" by simp
          from old [OF this] show ?thesis by auto
        qed
      qed
    qed
  qed
qed

lemma store_ok_run:
  "store_ok (records s) rank n \<Longrightarrow> calls_ok s cs \<Longrightarrow>
   \<exists>rank' n'. store_ok (records (run_creates s cs)) rank' n'"
proof (induction cs arbitrary: s rank n)
  case Nil
  then show ?case by auto
next
  case (Cons c cs)
  from Cons.prems have "store_ok (records (do_create s c)) (rank(call_id c := n)) (Suc n)"
    by (auto intro: store_ok_step)
  from Cons.IH [OF this] Cons.prems(2) show ?case by simp
qed

lemma get_chain_after_creates:
  assumes ok: "calls_ok (init_ledger path) cs"
    and stored: "records (run_creates (init_ledger path) cs) gid = Some r"
    and nonempty: "gid \<noteq> []"
  shows "\<exists>chain. get_chain (run_creates (init_ledger path) cs) gid = Some chain \<and> chain \<noteq> []
           \<and> last chain = r \<and> root_first chain
           \<and> walk_stops (records (run_creates (init_ledger path) cs)) (hd chain)"
proof -
  let ?s = "run_creates (init_ledger path) cs"
  from store_ok_run [OF store_ok_init ok] obtain rank n where inv: "store_ok (records ?s) rank n"
    by blast
  have "\<exists>chain. get_chain ?s gid = Some chain \<and> chain \<noteq> [] \<and> last chain = r
           \<and> root_first chain
           \<and> (\<forall>i. Suc i < length chain \<longrightarrow>
                    parent_id (chain ! Suc i) = Some (genesis_id (chain ! i)))
           \<and> walk_stops (records ?s) (hd chain)
           \<and> (\<forall>g \<in> set chain. records ?s (genesis_id g) = Some g)"
  proof (rule get_chain_ranked [where s = ?s and rank = rank and gid = gid and r = r])
    show "\<And>k g. records ?s k = Some g \<Longrightarrow> genesis_id g = k"
      using inv unfolding store_ok_def by blast
    show "\<And>c g p. records ?s c = Some g \<Longrightarrow> parent_id g = Some p \<Longrightarrow> p \<noteq> [] \<Longrightarrow>
        records ?s p \<noteq> None \<Longrightarrow> rank p < rank c"
      using inv unfolding store_ok_def by blast
    show "records ?s gid = Some r" by (rule stored)
    show "gid \<noteq> []" by (rule nonempty)
  qed
  then show ?thesis by blast
qed

section \<open>The council\<close>

lemma get_persona_vote_reply:
  "claude p action context = Inr a \<Longrightarrow>
   get_persona_vote claude p action context = Inr (vote_of p a)"
  by (simp add: get_persona_vote_def vote_of_def)

lemma collect_votes_panel:
  assumes "claude PHILOSOPHER action context = Inr a1"
    and "claude ENGINEER action context = Inr a2"
    and "claude GUARDIAN action context = Inr a3"
  shows "collect_votes claude action context all_personas =
     Inr [vote_of PHILOSOPHER a1, vote_of ENGINEER a2, vote_of GUARDIAN a3]"
  using assms by (simp add: all_personas_def get_persona_vote_reply)

lemma collect_votes_error:
  "claude p action context = Inl e \<Longrightarrow> p \<in> set ps \<Longrightarrow>
   \<exists>e'. collect_votes claude action context ps = Inl e'"
  by (induction ps) (auto simp: get_persona_vote_def split: sum.splits)

lemma deliberate_advisor_error:
  assumes "claude p action context = Inl e"
  shows "\<exists>e'. deliberate claude history action context = Inl e'"
proof -
  have "p \<in> set all_personas" by (cases p) (simp_all add: all_personas_def)
  with assms have "\<exists>e'. collect_votes claude action context all_personas = Inl e'"
    by (rule collect_votes_error)
  then obtain e' where "collect_votes claude action context all_personas = Inl e'" ..
  then show ?thesis by (simp add: deliberate_def)
qed



lemma check_confirmation_required_panel:
  "check_confirmation_required action
     [vote_of PHILOSOPHER a1, vote_of ENGINEER a2, vote_of GUARDIAN a3] =
   Inr (list_ex (\<lambda>kw. str_in kw (lower action)) high_risk_keywords
        \<or> \<not> reply_approval a3 \<or> reply_concerns a3 \<noteq> [])"
  by (simp add: check_confirmation_required_def vote_of_def)

lemma calculate_uncertainty_panel:
  "calculate_uncertainty [vote_of PHILOSOPHER a1, vote_of ENGINEER a2, vote_of GUARDIAN a3] =
   Inr (1 - (reply_confidence a1 + reply_confidence a2 + reply_confidence a3) / 3)"
  by (simp add: calculate_uncertainty_def vote_of_def Let_def)

lemma deliberate_panel:
  assumes "claude PHILOSOPHER action context = Inr a1"
    and "claude ENGINEER action context = Inr a2"
    and "claude GUARDIAN action context = Inr a3"
  shows "deliberate claude history action context =
     (let vs = [vote_of PHILOSOPHER a1, vote_of ENGINEER a2, vote_of GUARDIAN a3];
          verdict =
            \<lparr>approved = (length (filter approval vs) = 3),
             consensus_level = real (length (filter approval vs)) / 3,
             votes = vs,
             final_decision = synthesize_decision vs,
             uncertainty_level =
               1 - (reply_confidence a1 + reply_confidence a2 + reply_confidence a3) / 3,
             requires_confirmation_flag =
               (list_ex (\<lambda>kw. str_in kw (lower action)) high_risk_keywords
                \<or> \<not> reply_approval a3 \<or> reply_concerns a3 \<noteq> [])\<rparr>
      in Inr (verdict, history @ [verdict]))"
proof -
  have cv: "collect_votes claude action context all_personas =
     Inr [vote_of PHILOSOPHER a1, vote_of ENGINEER a2, vote_of GUARDIAN a3]"
    using assms by (rule collect_votes_panel)
  show ?thesis
    unfolding deliberate_def cv
    by (simp add: check_confirmation_required_panel calculate_uncertainty_panel Let_def
        eval_nat_numeral del: filter.simps)
qed

lemma approvals_panel:
  "length (filter approval [vote_of PHILOSOPHER a1, vote_of ENGINEER a2, vote_of GUARDIAN a3]) =
     (if reply_approval a1 then 1 else 0) + (if reply_approval a2 then 1 else 0)
     + (if reply_approval a3 then 1 else 0)"
  by (simp add: vote_of_def)

text \<open>
  C2: when the advisor answers for each of the three personas, \<open>deliberate\<close> returns a
  verdict (and appends it to the history) over the three votes, in the order philosopher,
  engineer, guardian. The verdict is approved exactly when all three votes approve, its
  consensus level is the number of approving votes divided by 3, and its uncertainty level
  is 1 minus the mean of the three confidences.
\<close>

theorem deliberate_aggregation:
  assumes "claude PHILOSOPHER action context = Inr a1"
    and "claude ENGINEER action context = Inr a2"
    and "claude GUARDIAN action context = Inr a3"
  shows "\<exists>verdict. deliberate claude history action context = Inr (verdict, history @ [verdict])
           \<and> votes verdict = [vote_of PHILOSOPHER a1, vote_of ENGINEER a2, vote_of GUARDIAN a3]
           \<and> (approved verdict \<longleftrightarrow>
                reply_approval a1 \<and> reply_approval a2 \<and> reply_approval a3)
           \<and> consensus_level verdict =
                real ((if reply_approval a1 then 1 else 0) + (if reply_approval a2 then 1 else 0)
                      + (if reply_approval a3 then 1 else 0)) / 3
           \<and> consensus_level verdict = real (length (filter approval (votes verdict))) / 3
           \<and> uncertainty_level verdict =
                1 - (reply_confidence a1 + reply_confidence a2 + reply_confidence a3) / 3"
proof -
  note d = deliberate_panel [of claude action "context" a1 a2 a3 history, OF assms]
  show ?thesis
    unfolding d Let_def
    by (intro exI conjI, rule refl) (simp_all add: approvals_panel del: filter.simps)
qed

theorem deliberate_aggregation_witness:
  "scripted_advisor True [] PHILOSOPHER ''publish the summary'' () = Inr philosopher_reply
   \<and> scripted_advisor True [] ENGINEER ''publish the summary'' () = Inr (engineer_reply True)
   \<and> scripted_advisor True [] GUARDIAN ''publish the summary'' () = Inr (guardian_reply [])
   \<and> (\<exists>verdict. deliberate (scripted_advisor True []) [] ''publish the summary'' () =
          Inr (verdict, [verdict])
        \<and> approved verdict \<and> consensus_level verdict = 1
        \<and> uncertainty_level verdict = 7 / 60)"
proof -
  have p1: "scripted_advisor True [] PHILOSOPHER ''publish the summary'' () =
      Inr philosopher_reply"
    by (simp add: scripted_advisor_def)
  have p2: "scripted_advisor True [] ENGINEER ''publish the summary'' () =
      Inr (engineer_reply True)"
    by (simp add: scripted_advisor_def)
  have p3: "scripted_advisor True [] GUARDIAN ''publish the summary'' () =
      Inr (guardian_reply [])"
    by (simp add: scripted_advisor_def)
  from deliberate_aggregation [of "scripted_advisor True []" "''publish the summary''" "()"
      philosopher_reply "engineer_reply True" "guardian_reply []" "[]", OF p1 p2 p3]
  obtain v where v:
    "deliberate (scripted_advisor True []) [] ''publish the summary'' () = Inr (v, [] @ [v])"
    "approved v \<longleftrightarrow> reply_approval philosopher_reply \<and> reply_approval (engineer_reply True)
       \<and> reply_approval (guardian_reply [])"
    "consensus_level v =
       real ((if reply_approval philosopher_reply then 1 else 0)
             + (if reply_approval (engineer_reply True) then 1 else 0)
             + (if reply_approval (guardian_reply []) then 1 else 0)) / 3"
    "uncertainty_level v =
       1 - (reply_confidence philosopher_reply + reply_confidence (engineer_reply True)
            + reply_confidence (guardian_reply [])) / 3"
    by blast
  have "deliberate (scripted_advisor True []) [] ''publish the summary'' () = Inr (v, [v])
        \<and> approved v \<and> consensus_level v = 1 \<and> uncertainty_level v = 7 / 60"
    using v by (simp add: philosopher_reply_def engineer_reply_def guardian_reply_def)
  then have "\<exists>verdict. deliberate (scripted_advisor True []) [] ''publish the summary'' () =
          Inr (verdict, [verdict])
        \<and> approved verdict \<and> consensus_level verdict = 1
        \<and> uncertainty_level verdict = 7 / 60" ..
  with p1 p2 p3 show ?thesis by (intro conjI)
qed



section \<open>The sub-checks of the audit\<close>

lemma split_acc_words:
  "w \<in> set (split_acc s cur) \<Longrightarrow> (\<forall>c \<in> set cur. \<not> isspace c) \<Longrightarrow>
   w \<noteq> [] \<and> (\<forall>c \<in> set w. \<not> isspace c)"
proof (induction s cur rule: split_acc.induct)
  case (1 cur)
  then show ?case by (cases "cur = []") simp_all
next
  case (2 c cs cur)
  show ?case
  proof (cases "isspace c")
    case sp: True
    show ?thesis
    proof (cases "cur = []")
      case True
      with sp "2.prems" have "w \<in> set (split_acc cs [])" by simp
      from "2.IH"(1) [OF sp True this] show ?thesis by simp
    next
      case False
      with sp "2.prems" have "w = cur \<or> w \<in> set (split_acc cs [])" by simp
      then show ?thesis
      proof
        assume "w = cur"
        with False "2.prems"(2) show ?thesis by simp
      next
        assume "w \<in> set (split_acc cs [])"
        from "2.IH"(2) [OF sp False this] show ?thesis by simp
      qed
    qed
  next
    case False
    with "2.prems" have "w \<in> set (split_acc cs (cur @ [c]))" by simp
    moreover have "\<forall>x \<in> set (cur @ [c]). \<not> isspace x" using False "2.prems"(2) by simp
    ultimately show ?thesis using "2.IH"(3) [OF False] by blast
  qed
qed

lemma split_words: "w \<in> set (split s) \<Longrightarrow> w \<noteq> [] \<and> (\<forall>c \<in> set w. \<not> isspace c)"
  unfolding split_def using split_acc_words [of w s "[]"] by simp

lemma split_empty: "split [] = []"
  by (simp add: split_def)








lemma audit_attribute_check:
  "attribute_check (audit a fragments basis layer) = check_attribute basis layer"
  by (simp add: audit_def Let_def)

lemma audit_shadow_check:
  "shadow_check (audit a fragments basis layer) = fst (check_shadow a fragments)"
  by (simp add: audit_def Let_def)

lemma audit_benevolence_check:
  "benevolence_check (audit a fragments basis layer) = fst (check_benevolence a)"
  by (simp add: audit_def Let_def)



lemma audit_final:
  "(final_result (audit a fragments basis layer), error_log (audit a fragments basis layer)) =
     finalize_loop [(fst (check_shadow a fragments), msg_shadow),
                    (fst (check_benevolence a), msg_benevolence),
                    (check_attribute basis layer, msg_attribute)]"
  by (simp add: audit_def Let_def finalize_def)

lemma check_attribute_range: "check_attribute basis layer \<in> {PASS, FLAG}"
  by (simp add: check_attribute_def)

lemma check_shadow_range: "fst (check_shadow a fragments) \<in> {PASS, REJECT}"
  by (simp add: check_shadow_def Let_def)

lemma check_benevolence_range: "fst (check_benevolence a) \<in> {PASS, INTERCEPT}"
  by (simp add: check_benevolence_def Let_def)


lemma finalize_loop_three:
  assumes "s \<in> {PASS, REJECT}" "b \<in> {PASS, INTERCEPT}" "t \<in> {PASS, FLAG}"
  shows "finalize_loop [(s, ms), (b, mb), (t, mt)] =
     (highest_priority [s, b, t],
      if s = REJECT then Some ms else if b = INTERCEPT then Some mb
      else if t = FLAG then Some mt else None)"
  using assms by auto

text \<open>
  \<open>_finalize\<close> itself takes the first outcome that is not a pass in the order shadow,
  benevolence, attribute. On sub-check results that the three checks cannot produce this is
  not the outcome of highest priority.
\<close>

lemma finalize_loop_call_order:
  "finalize_loop [(FLAG, ms), (REJECT, mb), (PASS, mt)] = (FLAG, Some ms)"
  by simp

text \<open>
  C10: each sub-check has two outcomes only. The attribute check gives \<open>PASS\<close> or
  \<open>FLAG\<close>, the shadow check \<open>PASS\<close> or \<open>REJECT\<close>, the benevolence check \<open>PASS\<close>
  or \<open>INTERCEPT\<close>; the same holds of the three sub-verdicts of every audit result.
\<close>

theorem sub_check_ranges:
  "check_attribute basis layer \<in> {PASS, FLAG}
   \<and> fst (check_shadow a fragments) \<in> {PASS, REJECT}
   \<and> fst (check_benevolence a) \<in> {PASS, INTERCEPT}
   \<and> attribute_check (audit a fragments basis layer) \<in> {PASS, FLAG}
   \<and> shadow_check (audit a fragments basis layer) \<in> {PASS, REJECT}
   \<and> benevolence_check (audit a fragments basis layer) \<in> {PASS, INTERCEPT}"
  unfolding audit_attribute_check audit_shadow_check audit_benevolence_check
  using check_attribute_range check_shadow_range check_benevolence_range by (intro conjI)

theorem sub_check_ranges_witness:
  "check_attribute ''Inference'' L1 \<in> {PASS, FLAG}
   \<and> fst (check_shadow pleasing_action [''weather forecast'']) \<in> {PASS, REJECT}
   \<and> fst (check_benevolence pleasing_action) \<in> {PASS, INTERCEPT}
   \<and> attribute_check (audit pleasing_action [''weather forecast''] ''Inference'' L1)
       \<in> {PASS, FLAG}
   \<and> shadow_check (audit pleasing_action [''weather forecast''] ''Inference'' L1)
       \<in> {PASS, REJECT}
   \<and> benevolence_check (audit pleasing_action [''weather forecast''] ''Inference'' L1)
       \<in> {PASS, INTERCEPT}"
  by (rule sub_check_ranges)

text \<open>
  C3: in every result of \<open>audit\<close> the final verdict is the outcome of highest priority
  among the three sub-verdicts, in the order \<open>REJECT > INTERCEPT > FLAG > PASS\<close>, and the
  reason is the one of the sub-check that gave it: the shadow check for \<open>REJECT\<close>, the
  benevolence check for \<open>INTERCEPT\<close>, the attribute check for \<open>FLAG\<close>. When the three
  sub-checks pass, the final verdict is \<open>PASS\<close> and there is no reason.
\<close>

theorem audit_final_verdict:
  assumes r: "r = audit a fragments basis layer"
  shows "final_result r = highest_priority [shadow_check r, benevolence_check r, attribute_check r]
     \<and> (\<forall>x \<in> {shadow_check r, benevolence_check r, attribute_check r}.
           priority_of x \<le> priority_of (final_result r))
     \<and> (final_result r = REJECT \<longrightarrow> shadow_check r = REJECT \<and> error_log r = Some msg_shadow)
     \<and> (final_result r = INTERCEPT \<longrightarrow>
           benevolence_check r = INTERCEPT \<and> error_log r = Some msg_benevolence)
     \<and> (final_result r = FLAG \<longrightarrow> attribute_check r = FLAG \<and> error_log r = Some msg_attribute)
     \<and> (final_result r = PASS \<longleftrightarrow>
           shadow_check r = PASS \<and> benevolence_check r = PASS \<and> attribute_check r = PASS)
     \<and> (final_result r = PASS \<longrightarrow> error_log r = None)"
proof -
  let ?s = "fst (check_shadow a fragments)"
  let ?b = "fst (check_benevolence a)"
  let ?t = "check_attribute basis layer"
  have s: "shadow_check r = ?s" and b: "benevolence_check r = ?b" and t: "attribute_check r = ?t"
    unfolding r by (rule audit_shadow_check audit_benevolence_check audit_attribute_check)+
  have "(final_result r, error_log r) =
      finalize_loop [(?s, msg_shadow), (?b, msg_benevolence), (?t, msg_attribute)]"
    unfolding r by (rule audit_final)
  also have "\<dots> = (highest_priority [?s, ?b, ?t],
      if ?s = REJECT then Some msg_shadow else if ?b = INTERCEPT then Some msg_benevolence
      else if ?t = FLAG then Some msg_attribute else None)"
    by (rule finalize_loop_three [OF check_shadow_range check_benevolence_range
          check_attribute_range])
  finally have f: "final_result r = highest_priority [?s, ?b, ?t]"
    and e: "error_log r = (if ?s = REJECT then Some msg_shadow
        else if ?b = INTERCEPT then Some msg_benevolence
        else if ?t = FLAG then Some msg_attribute else None)"
    by simp_all
  have cases: "?s = PASS \<or> ?s = REJECT" "?b = PASS \<or> ?b = INTERCEPT" "?t = PASS \<or> ?t = FLAG"
    using check_shadow_range [of a fragments] check_benevolence_range [of a]
      check_attribute_range [of basis layer] by simp_all
  show ?thesis
    unfolding s b t f e using cases by (elim disjE) simp_all
qed

theorem audit_final_verdict_witness:
  "shadow_check (audit pleasing_action [''weather forecast''] ''Inference'' L1) = REJECT
   \<and> benevolence_check (audit pleasing_action [''weather forecast''] ''Inference'' L1) = INTERCEPT
   \<and> attribute_check (audit pleasing_action [''weather forecast''] ''Inference'' L1) = FLAG
   \<and> final_result (audit pleasing_action [''weather forecast''] ''Inference'' L1) = REJECT
   \<and> error_log (audit pleasing_action [''weather forecast''] ''Inference'' L1) = Some msg_shadow"
proof -
  let ?r = "audit pleasing_action [''weather forecast''] ''Inference'' L1"
  have s: "shadow_check ?r = REJECT"
    unfolding audit_shadow_check by code_simp
  have b: "benevolence_check ?r = INTERCEPT"
    unfolding audit_benevolence_check by code_simp
  have t: "attribute_check ?r = FLAG"
    unfolding audit_attribute_check by (simp add: check_attribute_def)
  note v = audit_final_verdict [of ?r pleasing_action "[''weather forecast'']" "''Inference''" L1,
      OF refl]
  from v have "final_result ?r = highest_priority [shadow_check ?r, benevolence_check ?r,
      attribute_check ?r]" by (rule conjunct1)
  then have f: "final_result ?r = REJECT" unfolding s b t by simp
  from v f have e: "error_log ?r = Some msg_shadow" by blast
  from s b t f e show ?thesis by (intro conjI)
qed





text \<open>
  The audit of the same text against the context \<open>help request\<close>: the benevolence check
  intercepts, but no word of the text is a word of the context (\<open>help!\<close> is not \<open>help\<close>),
  so the shadow check rejects and the final verdict is \<open>REJECT\<close>.
\<close>

lemma audit_pleasing_action:
  "benevolence_check (audit pleasing_action [''help request''] ''Inference'' L2) = INTERCEPT
   \<and> shadow_check (audit pleasing_action [''help request''] ''Inference'' L2) = REJECT
   \<and> final_result (audit pleasing_action [''help request''] ''Inference'' L2) = REJECT"
proof -
  let ?r = "audit pleasing_action [''help request''] ''Inference'' L2"
  have b: "fst (check_benevolence pleasing_action) = INTERCEPT" by code_simp
  have s: "fst (check_shadow pleasing_action [''help request'']) = REJECT" by code_simp
  have "(final_result ?r, error_log ?r) = (REJECT, Some msg_shadow)"
    unfolding audit_final s b by simp
  then show ?thesis by (simp add: audit_benevolence_check audit_shadow_check b s)
qed

end
